theory Spec2Isabelle
  imports Complex_Main "HOL-Library.Multiset"
begin

section \<open>The collector package of github\_billing\_exporter\<close>

text \<open>
  The development follows \<^verbatim>\<open>collector/collector.go\<close>. Go strings are byte
  sequences, so a name is a \<^typ>\<open>string\<close>; a Go \<^verbatim>\<open>error\<close> is its message.
  The package state (the three package-level maps, and the flags the package has
  declared on kingpin's command line) is a record that every operation takes and
  returns; a Go map is a HOL map, and a \<^verbatim>\<open>range\<close> loop over it takes the order
  in which the runtime happens to visit the entries as an argument. The functions of
  the libraries (go-kit log, prometheus client, kingpin, \<^verbatim>\<open>unicode/utf8\<close>) are
  modelled as far as the package depends on them.
\<close>

type_synonym error = string

subsection \<open>The library types the package uses\<close>

text \<open>
  \<^verbatim>\<open>log.Logger\<close> of go-kit: a logger is the list of key/value pairs it puts in
  front of every entry. \<^verbatim>\<open>log.With\<close> appends pairs to that context and
  \<^verbatim>\<open>level.Error\<close>, \<^verbatim>\<open>level.Info\<close> put the level pair in front of it.
\<close>

type_synonym keyvals = "(string \<times> string) list"
type_synonym Logger = keyvals

definition log_With :: "Logger \<Rightarrow> keyvals \<Rightarrow> Logger" where
  "log_With logger kvs = logger @ kvs"

definition level_Error :: "Logger \<Rightarrow> Logger" where
  "level_Error logger = (''level'', ''error'') # logger"

definition level_Info :: "Logger \<Rightarrow> Logger" where
  "level_Info logger = (''level'', ''info'') # logger"

definition Log :: "Logger \<Rightarrow> keyvals \<Rightarrow> keyvals" where
  "Log logger kvs = logger @ kvs"

text \<open>
  \<^verbatim>\<open>prometheus.Desc\<close>: the fully-qualified name, the help text, the names of
  the variable labels, the constant labels, and the error that \<^verbatim>\<open>NewDesc\<close>
  records when the descriptor is malformed.
\<close>

record Desc =
  fqName :: string
  helpText :: string
  variableLabels :: "string list"
  constLabels :: "(string \<times> string) list"
  err :: "error option"

datatype ValueType = CounterValue | GaugeValue | UntypedValue

record Metric =
  desc :: Desc
  valType :: ValueType
  val :: real
  labelValues :: "string list"

definition BuildFQName :: "string \<Rightarrow> string \<Rightarrow> string \<Rightarrow> string" where
  "BuildFQName ns subsystem name =
     (if name = [] then []
      else if ns \<noteq> [] \<and> subsystem \<noteq> [] then ns @ ''_'' @ subsystem @ ''_'' @ name
      else if ns \<noteq> [] then ns @ ''_'' @ name
      else if subsystem \<noteq> [] then subsystem @ ''_'' @ name
      else name)"

definition byte :: "char \<Rightarrow> nat" where
  "byte c = of_char c"

definition is_letter :: "char \<Rightarrow> bool" where
  "is_letter c = ((97 \<le> byte c \<and> byte c \<le> 122) \<or> (65 \<le> byte c \<and> byte c \<le> 90) \<or> byte c = 95)"

definition is_digit :: "char \<Rightarrow> bool" where
  "is_digit c = (48 \<le> byte c \<and> byte c \<le> 57)"

definition IsValidMetricName :: "string \<Rightarrow> bool" where
  "IsValidMetricName n =
     (case n of [] \<Rightarrow> False
      | c # cs \<Rightarrow> (is_letter c \<or> byte c = 58) \<and>
                 list_all (\<lambda>b. is_letter b \<or> byte b = 58 \<or> is_digit b) cs)"

definition checkLabelName :: "string \<Rightarrow> bool" where
  "checkLabelName l =
     (case l of [] \<Rightarrow> False
      | c # cs \<Rightarrow> is_letter c \<and> list_all (\<lambda>b. is_letter b \<or> is_digit b) cs \<and>
                 take 2 l \<noteq> ''__'')"

definition NewDesc :: "string \<Rightarrow> string \<Rightarrow> string list \<Rightarrow> (string \<times> string) list \<Rightarrow> Desc" where
  "NewDesc fq h vls cls =
     (let d = \<lparr>fqName = fq, helpText = h, variableLabels = vls, constLabels = cls, err = None\<rparr> in
      if \<not> IsValidMetricName fq then d\<lparr>err := Some (fq @ '' is not a valid metric name'')\<rparr>
      else if \<not> list_all checkLabelName (map fst cls) then
        d\<lparr>err := Some ''invalid label name in const labels''\<rparr>
      else if \<not> list_all checkLabelName vls then
        d\<lparr>err := Some ''invalid label name in variable labels''\<rparr>
      else if \<not> distinct (map fst cls @ vls) then d\<lparr>err := Some ''duplicate label names''\<rparr>
      else d)"

text \<open>
  \<^verbatim>\<open>utf8.ValidString\<close>: the well-formed byte sequences of UTF-8 (no overlong
  forms, no surrogates, nothing above U+10FFFF).
\<close>

definition cont :: "nat \<Rightarrow> nat \<Rightarrow> char \<Rightarrow> bool" where
  "cont lo hi c = (lo \<le> byte c \<and> byte c \<le> hi)"

fun ValidString :: "string \<Rightarrow> bool" where
  "ValidString [] = True"
| "ValidString (a # s) =
     (if byte a < 128 then ValidString s
      else if 194 \<le> byte a \<and> byte a \<le> 223 then
        (case s of b # r \<Rightarrow> cont 128 191 b \<and> ValidString r | _ \<Rightarrow> False)
      else if 224 \<le> byte a \<and> byte a \<le> 239 then
        (case s of b # c # r \<Rightarrow>
           cont (if byte a = 224 then 160 else 128) (if byte a = 237 then 159 else 191) b \<and>
           cont 128 191 c \<and> ValidString r
         | _ \<Rightarrow> False)
      else if 240 \<le> byte a \<and> byte a \<le> 244 then
        (case s of b # c # d # r \<Rightarrow>
           cont (if byte a = 240 then 144 else 128) (if byte a = 244 then 143 else 191) b \<and>
           cont 128 191 c \<and> cont 128 191 d \<and> ValidString r
         | _ \<Rightarrow> False)
      else False)"

text \<open>
  \<^verbatim>\<open>prometheus.MustNewConstMetric\<close> panics with the error of
  \<^verbatim>\<open>NewConstMetric\<close>: that of the descriptor, a number of label values other
  than the number of variable labels, or a label value that is not valid UTF-8.
\<close>

datatype 'a outcome = Panic string | Return 'a

definition validateLabelValues :: "string list \<Rightarrow> nat \<Rightarrow> error option" where
  "validateLabelValues vals expected =
     (if length vals \<noteq> expected then Some ''inconsistent label cardinality''
      else if \<not> list_all ValidString vals then Some ''label value is not valid UTF-8''
      else None)"

definition NewConstMetric :: "Desc \<Rightarrow> ValueType \<Rightarrow> real \<Rightarrow> string list \<Rightarrow> Metric option \<times> error option" where
  "NewConstMetric d vt v lvs =
     (case err d of Some e \<Rightarrow> (None, Some e)
      | None \<Rightarrow>
        (case validateLabelValues lvs (length (variableLabels d)) of
           Some e \<Rightarrow> (None, Some e)
         | None \<Rightarrow> (Some \<lparr>desc = d, valType = vt, val = v, labelValues = lvs\<rparr>, None)))"

definition MustNewConstMetric :: "Desc \<Rightarrow> ValueType \<Rightarrow> real \<Rightarrow> string list \<Rightarrow> Metric outcome" where
  "MustNewConstMetric d vt v lvs =
     (case NewConstMetric d vt v lvs of
        (Some m, None) \<Rightarrow> Return m
      | (_, Some e) \<Rightarrow> Panic e
      | (None, None) \<Rightarrow> Panic ''nil metric'')"

text \<open>
  kingpin: \<^verbatim>\<open>kingpin.Flag(n, h).Default(v).Action(a).Bool()\<close> appends a flag
  clause to the command line's flags without looking at the ones already there,
  and returns a pointer to a fresh boolean that holds \<^verbatim>\<open>false\<close> until the
  command line is parsed. The flags live in a store (\<open>flagOrder\<close>); a pointer to a
  flag's boolean is the flag's position in it. The action of a collector flag is the
  closure of \<^verbatim>\<open>collectorFlagAction\<close>, kept as the collector name it captured.
  Duplicate flag names are found only by the check kingpin runs when it parses.
\<close>

record FlagClause =
  flagName :: string
  flagHelp :: string
  defaultValues :: "string list"
  actionFor :: string
  target :: bool

fun checkDuplicates :: "string list \<Rightarrow> FlagClause list \<Rightarrow> error option" where
  "checkDuplicates seenLong [] = None"
| "checkDuplicates seenLong (flag # flags) =
     (if flagName flag \<in> set seenLong then Some (''duplicate long flag --'' @ flagName flag)
      else checkDuplicates (flagName flag # seenLong) flags)"

subsection \<open>Package state\<close>

datatype Collector = Collector (Update: "Metric list \<times> error option")

text \<open>
  A collector is what its \<^verbatim>\<open>Update(ch)\<close> does in the cycle at hand: the samples
  it sends on \<open>ch\<close>, in order, and the error it returns (\<open>None\<close> for \<^verbatim>\<open>nil\<close>).
\<close>

record globals =
  factories :: "string \<rightharpoonup> (Logger \<Rightarrow> error + Collector)"
  collectorState :: "string \<rightharpoonup> nat"
  forcedCollectors :: "string \<rightharpoonup> bool"
  flagOrder :: "FlagClause list"

definition init_globals :: globals where
  "init_globals = \<lparr>factories = Map.empty, collectorState = Map.empty,
                    forcedCollectors = Map.empty, flagOrder = []\<rparr>"

definition namespace :: string where
  "namespace = ''github_billing''"

definition up :: Desc where
  "up = NewDesc (BuildFQName namespace [] ''up'') ''Can be test_server reached'' [''collector''] []"

record BillingCollector =
  Collectors :: "string \<rightharpoonup> Collector"
  logger :: Logger

text \<open>What a call does besides returning: sends on the metric channel (tagged with the
  function that performs the send), log entries, and calls of collector factories.\<close>

datatype origin = InUpdate | InExecute

datatype effect = Sent origin Metric | Logged keyvals | Constructed string Logger

text \<open>The entries of a Go map in the order one \<^verbatim>\<open>range\<close> loop visits them: every
  key once, in any order.\<close>

definition range_of :: "('k \<rightharpoonup> 'v) \<Rightarrow> ('k \<times> 'v) list \<Rightarrow> bool" where
  "range_of m kvs = (distinct (map fst kvs) \<and> map_of kvs = m)"

subsection \<open>registerCollector and collectorFlagAction\<close>

definition collectorFlagAction :: "string \<Rightarrow> globals \<Rightarrow> globals" where
  "collectorFlagAction collector g = g\<lparr>forcedCollectors := (forcedCollectors g)(collector \<mapsto> True)\<rparr>"

definition registerCollector ::
  "string \<Rightarrow> bool \<Rightarrow> (Logger \<Rightarrow> error + Collector) \<Rightarrow> globals \<Rightarrow> globals" where
  "registerCollector collector isDefaultEnabled factory g =
     (let helpDefaultState = (if isDefaultEnabled then ''enabled'' else ''disabled'');
          name = ''collector.'' @ collector;
          hlp = ''Enable the '' @ collector @ '' collector (default: '' @ helpDefaultState @ '').'';
          defaultValue = (if isDefaultEnabled then ''true'' else ''false'');
          flag = length (flagOrder g);
          g1 = g\<lparr>flagOrder := flagOrder g @
                 [\<lparr>flagName = name, flagHelp = hlp, defaultValues = [defaultValue],
                   actionFor = collector, target = False\<rparr>]\<rparr>;
          g2 = g1\<lparr>collectorState := (collectorState g1)(collector \<mapsto> flag)\<rparr>
      in g2\<lparr>factories := (factories g2)(collector \<mapsto> factory)\<rparr>)"

subsection \<open>NewBillingCollector\<close>

text \<open>
  The loop body tests \<^verbatim>\<open>*enabled\<close> twice, in two consecutive \<^verbatim>\<open>if\<close> statements; the
  flag does not change in between, so the model has one conditional with both branches.
  A nil pointer or a nil factory would panic. The function returns the effects of the
  call (factory calls and log entries, in order) together with the pair it returns.
\<close>

definition deref :: "globals \<Rightarrow> nat \<Rightarrow> bool option" where
  "deref g p = (if p < length (flagOrder g) then Some (target (flagOrder g ! p)) else None)"

fun build_loop ::
  "globals \<Rightarrow> Logger \<Rightarrow> (string \<times> nat) list \<Rightarrow> (string \<rightharpoonup> Collector) \<Rightarrow>
   effect list \<times> (BillingCollector option \<times> error option) outcome" where
  "build_loop g lg [] collectors =
     ([], Return (Some \<lparr>Collectors = collectors, logger = lg\<rparr>, None))"
| "build_loop g lg ((key, enabled) # rest) collectors =
     (case deref g enabled of
        None \<Rightarrow> ([], Panic ''nil pointer dereference'')
      | Some en \<Rightarrow>
        if en then
          (case factories g key of
             None \<Rightarrow> ([], Panic ''nil pointer dereference'')
           | Some factory \<Rightarrow>
             (case factory (log_With lg [(''collector'', key)]) of
                Inl e \<Rightarrow> ([Constructed key (log_With lg [(''collector'', key)])], Return (None, Some e))
              | Inr collector \<Rightarrow>
                (let (effs, r) = build_loop g lg rest (collectors(key \<mapsto> collector))
                 in (Constructed key (log_With lg [(''collector'', key)]) # effs, r))))
        else
          (let (effs, r) = build_loop g lg rest collectors
           in (Logged (Log (level_Info lg) [(''msg'', ''Collector disabled''), (''name'', key)]) # effs, r)))"

definition NewBillingCollector ::
  "globals \<Rightarrow> (string \<times> nat) list \<Rightarrow> Logger \<Rightarrow>
   effect list \<times> (BillingCollector option \<times> error option) outcome" where
  "NewBillingCollector g visit lg = build_loop g lg visit Map.empty"

subsection \<open>Describe, execute and Collect\<close>

definition Describe :: "BillingCollector \<Rightarrow> Desc list" where
  "Describe n = [up]"

definition execute :: "string \<Rightarrow> Collector \<Rightarrow> Logger \<Rightarrow> effect list \<times> unit outcome" where
  "execute name c lg =
     (let (samples, e) = Update c;
          updated = map (Sent InUpdate) samples;
          (logged, success) =
            (case e of
               Some msg \<Rightarrow> ([Logged (Log (level_Error lg) [(''msg'', ''Cannot collect metrics''), (''err'', msg)])], 0)
             | None \<Rightarrow> ([], 1))
      in case MustNewConstMetric up GaugeValue success [name] of
           Panic p \<Rightarrow> (updated @ logged, Panic p)
         | Return m \<Rightarrow> (updated @ logged @ [Sent InExecute m], Return ()))"

text \<open>
  \<^verbatim>\<open>Collect\<close> starts one goroutine per entry and waits for all of them. The
  scheduler is a step relation: \<open>sched ts tr\<close> holds when the goroutines, with the
  effects \<open>ts\<close> still ahead of them, can run to their ends producing \<open>tr\<close>, where
  every step takes the next effect of some goroutine. An event of the trace is
  the name of the goroutine and its effect.
\<close>

inductive sched :: "(string \<times> effect list) list \<Rightarrow> (string \<times> effect) list \<Rightarrow> bool" where
  sched_done: "concat (map snd ts) = [] \<Longrightarrow> sched ts []"
| sched_step: "i < length ts \<Longrightarrow> ts ! i = (name, e # rest) \<Longrightarrow> sched (ts[i := (name, rest)]) tr
               \<Longrightarrow> sched ts ((name, e) # tr)"

definition goroutines :: "BillingCollector \<Rightarrow> (string \<times> Collector) list \<Rightarrow> (string \<times> effect list) list" where
  "goroutines n visit = map (\<lambda>(name, c). (name, fst (execute name c (logger n)))) visit"

definition panics :: "BillingCollector \<Rightarrow> (string \<times> Collector) list \<Rightarrow> bool" where
  "panics n visit = list_ex (\<lambda>(name, c). snd (execute name c (logger n)) \<noteq> Return ()) visit"

text \<open>\<open>Collect n visit tr\<close>: the call returns, and \<open>tr\<close> is what happened until then. A
  goroutine that panics takes the process down, and \<^verbatim>\<open>Collect\<close> does not return.\<close>

definition Collect :: "BillingCollector \<Rightarrow> (string \<times> Collector) list \<Rightarrow> (string \<times> effect) list \<Rightarrow> bool" where
  "Collect n visit tr = (\<not> panics n visit \<and> sched (goroutines n visit) tr)"

subsection \<open>Vocabulary of the properties\<close>

text \<open>The success indicator the wrapper owes a collector: the \<open>up\<close> gauge, 1 when
  \<^verbatim>\<open>Update\<close> returned no error and 0 otherwise, labelled with the collector's name.\<close>

definition failed :: "Collector \<Rightarrow> bool" where
  "failed c = (snd (Update c) \<noteq> None)"

definition indicator :: "string \<Rightarrow> Collector \<Rightarrow> Metric" where
  "indicator name c =
     \<lparr>desc = up, valType = GaugeValue, val = (if failed c then 0 else 1), labelValues = [name]\<rparr>"

text \<open>The entry \<^verbatim>\<open>execute\<close> logs when \<^verbatim>\<open>Update\<close> returned an error.\<close>

definition error_log :: "Logger \<Rightarrow> Collector \<Rightarrow> effect list" where
  "error_log lg c = (case snd (Update c) of
      Some msg \<Rightarrow> [Logged (Log (level_Error lg) [(''msg'', ''Cannot collect metrics''), (''err'', msg)])]
    | None \<Rightarrow> [])"

text \<open>The samples of a trace that \<^verbatim>\<open>execute\<close> itself sent, each with its goroutine.\<close>

fun indicator_of :: "string \<times> effect \<Rightarrow> (string \<times> Metric) list" where
  "indicator_of (g, Sent InExecute m) = [(g, m)]"
| "indicator_of _ = []"

definition indicators :: "(string \<times> effect) list \<Rightarrow> (string \<times> Metric) list" where
  "indicators tr = concat (map indicator_of tr)"

text \<open>What one goroutine did in a trace.\<close>

definition events_of :: "string \<Rightarrow> (string \<times> effect) list \<Rightarrow> effect list" where
  "events_of name tr = map snd (filter (\<lambda>ev. fst ev = name) tr)"

text \<open>The schedule that runs the goroutines one after the other.\<close>

definition tagged :: "(string \<times> effect list) \<Rightarrow> (string \<times> effect) list" where
  "tagged t = map (Pair (fst t)) (snd t)"

definition in_turn :: "(string \<times> effect list) list \<Rightarrow> (string \<times> effect) list" where
  "in_turn ts = concat (map tagged ts)"

text \<open>The indicators a visit of the collector set owes, one per entry.\<close>

definition owed :: "(string \<times> Collector) list \<Rightarrow> (string \<times> Metric) list" where
  "owed visit = map (\<lambda>(name, c). (name, indicator name c)) visit"

text \<open>The registry as \<^verbatim>\<open>NewBillingCollector\<close> reads it: whether the flag behind a
  pointer is set, what the factory registered for a key returns, whether an entry is
  enabled with a factory that fails, and the shape \<^verbatim>\<open>registerCollector\<close> gives every
  entry (a pointer to a flag of the store and a factory).\<close>

definition enabled :: "globals \<Rightarrow> nat \<Rightarrow> bool" where
  "enabled g p = (deref g p = Some True)"

definition construct :: "globals \<Rightarrow> Logger \<Rightarrow> string \<Rightarrow> (error + Collector) option" where
  "construct g lg key = map_option (\<lambda>factory. factory (log_With lg [(''collector'', key)])) (factories g key)"

definition fails :: "globals \<Rightarrow> Logger \<Rightarrow> string \<times> nat \<Rightarrow> bool" where
  "fails g lg = (\<lambda>(key, p). enabled g p \<and> (case construct g lg key of Some (Inl e) \<Rightarrow> True | _ \<Rightarrow> False))"

definition registered :: "globals \<Rightarrow> (string \<times> nat) list \<Rightarrow> bool" where
  "registered g visit = list_all (\<lambda>(key, p). p < length (flagOrder g) \<and> factories g key \<noteq> None) visit"

text \<open>The invariant of the registry: every registered name points to a flag of the
  store and has a factory.\<close>

definition well_registered :: "globals \<Rightarrow> bool" where
  "well_registered g =
     (\<forall>key p. collectorState g key = Some p \<longrightarrow> p < length (flagOrder g) \<and> factories g key \<noteq> None)"

text \<open>What a scrape of the orchestrator built from a registry shows: the descriptors of
  \<^verbatim>\<open>Describe\<close> and the runs of \<^verbatim>\<open>Collect\<close>; nothing when no orchestrator is built.\<close>

definition observed ::
  "globals \<Rightarrow> (string \<times> nat) list \<Rightarrow> Logger \<Rightarrow>
   (Desc list \<times> ((string \<times> Collector) list \<Rightarrow> (string \<times> effect) list \<Rightarrow> bool)) option" where
  "observed g visit lg =
     (case snd (NewBillingCollector g visit lg) of
        Return (Some n, _) \<Rightarrow> Some (Describe n, Collect n)
      | _ \<Rightarrow> None)"

subsection \<open>Sample data\<close>

text \<open>An orchestrator with two collectors: \<open>actions\<close> sends one sample and succeeds,
  \<open>storage\<close> sends nothing and fails. \<open>bad_name\<close> is a byte string that is not UTF-8.\<close>

definition minutes_sample :: Metric where
  "minutes_sample = \<lparr>desc = \<lparr>fqName = ''github_billing_minutes'', helpText = ''Minutes used'',
       variableLabels = [''org''], constLabels = [], err = None\<rparr>,
     valType = GaugeValue, val = 42, labelValues = [''acme'']\<rparr>"

definition actions_collector :: Collector where
  "actions_collector = Collector ([minutes_sample], None)"

definition storage_collector :: Collector where
  "storage_collector = Collector ([], Some ''quota exceeded'')"

definition two_visit :: "(string \<times> Collector) list" where
  "two_visit = [(''actions'', actions_collector), (''storage'', storage_collector)]"

definition two_collectors :: BillingCollector where
  "two_collectors = \<lparr>Collectors = map_of two_visit, logger = [(''ts'', ''now'')]\<rparr>"

definition bad_name :: string where
  "bad_name = [CHR 0xFF]"

text \<open>kingpin parsing a command line that names no collector flag: every flag takes its
  default value and no action runs.\<close>

definition parse_defaults :: "globals \<Rightarrow> globals" where
  "parse_defaults g = g\<lparr>flagOrder := map (\<lambda>flag. flag\<lparr>target := (defaultValues flag = [''true''])\<rparr>) (flagOrder g)\<rparr>"

definition three_registered :: globals where
  "three_registered = parse_defaults
     (registerCollector ''packages'' True (\<lambda>lg. Inr storage_collector)
       (registerCollector ''storage'' False (\<lambda>lg. Inr storage_collector)
         (registerCollector ''actions'' True (\<lambda>lg. Inr actions_collector) init_globals)))"

definition three_visit :: "(string \<times> nat) list" where
  "three_visit = [(''storage'', 1), (''packages'', 2), (''actions'', 0)]"

definition broken_registered :: globals where
  "broken_registered = parse_defaults
     (registerCollector ''storage'' True (\<lambda>lg. Inl ''no token'')
       (registerCollector ''actions'' True (\<lambda>lg. Inr actions_collector) init_globals))"

definition broken_visit :: "(string \<times> nat) list" where
  "broken_visit = [(''actions'', 0), (''storage'', 1)]"

text \<open>The orchestrator that \<open>three_registered\<close> builds with an empty logger, and a run
  of the goroutines of \<open>two_collectors\<close> in which their steps alternate.\<close>

definition three_built :: BillingCollector where
  "three_built = \<lparr>Collectors = [''packages'' \<mapsto> storage_collector, ''actions'' \<mapsto> actions_collector],
                   logger = []\<rparr>"

definition three_built_visit :: "(string \<times> Collector) list" where
  "three_built_visit = [(''actions'', actions_collector), (''packages'', storage_collector)]"

definition interleaved :: "(string \<times> effect) list" where
  "interleaved =
     [(''storage'', Logged [(''level'', ''error''), (''ts'', ''now''),
                            (''msg'', ''Cannot collect metrics''), (''err'', ''quota exceeded'')]),
      (''actions'', Sent InUpdate minutes_sample),
      (''storage'', Sent InExecute (indicator ''storage'' storage_collector)),
      (''actions'', Sent InExecute (indicator ''actions'' actions_collector))]"

text \<open>The same name registered twice, with different defaults and factories.\<close>

definition twice_registered :: globals where
  "twice_registered =
     registerCollector ''actions'' False (\<lambda>lg. Inl ''second'')
       (registerCollector ''actions'' True (\<lambda>lg. Inr actions_collector) init_globals)"

section \<open>Properties\<close>

subsection \<open>The descriptor and the sample constructor\<close>

lemma up_fields:
  "up = \<lparr>fqName = ''github_billing_up'', helpText = ''Can be test_server reached'',
         variableLabels = [''collector''], constLabels = [], err = None\<rparr>"
  by (simp add: up_def NewDesc_def BuildFQName_def namespace_def IsValidMetricName_def
      checkLabelName_def is_letter_def is_digit_def byte_def Let_def)

lemma MustNewConstMetric_up_valid:
  "ValidString name \<Longrightarrow> MustNewConstMetric up GaugeValue v [name] =
     Return \<lparr>desc = up, valType = GaugeValue, val = v, labelValues = [name]\<rparr>"
  by (simp add: up_fields MustNewConstMetric_def NewConstMetric_def validateLabelValues_def)

lemma MustNewConstMetric_up_invalid:
  "\<not> ValidString name \<Longrightarrow> MustNewConstMetric up GaugeValue v [name] =
     Panic ''label value is not valid UTF-8''"
  by (simp add: up_fields MustNewConstMetric_def NewConstMetric_def validateLabelValues_def)

subsection \<open>Schedules\<close>

lemma sched_run_one:
  "sched (pre @ (n, []) # post) tr \<Longrightarrow> sched (pre @ (n, es) # post) (map (Pair n) es @ tr)"
proof (induction es)
  case Nil
  then show ?case by simp
next
  case (Cons e es)
  have "sched (pre @ (n, e # es) # post) ((n, e) # (map (Pair n) es @ tr))"
  proof (rule sched_step [where i = "length pre" and rest = es])
    show "length pre < length (pre @ (n, e # es) # post)" by simp
    show "(pre @ (n, e # es) # post) ! length pre = (n, e # es)" by simp
    show "sched ((pre @ (n, e # es) # post)[length pre := (n, es)]) (map (Pair n) es @ tr)"
      using Cons by simp
  qed
  then show ?case by simp
qed

lemma sched_in_turn_gen:
  "concat (map snd pre) = [] \<Longrightarrow> sched (pre @ post) (in_turn post)"
proof (induction post arbitrary: pre)
  case Nil
  then show ?case by (simp add: in_turn_def sched_done)
next
  case (Cons t post)
  obtain n es where t: "t = (n, es)" by (cases t)
  have "sched ((pre @ [(n, [])]) @ post) (in_turn post)"
    using Cons.prems by (intro Cons.IH) simp
  then have "sched (pre @ (n, []) # post) (in_turn post)" by simp
  then have "sched (pre @ (n, es) # post) (map (Pair n) es @ in_turn post)"
    by (rule sched_run_one)
  then show ?case by (simp add: t in_turn_def tagged_def)
qed

lemma sched_in_turn: "sched ts (in_turn ts)"
  using sched_in_turn_gen [of "[]" ts] by simp

lemma in_turn_update:
  assumes "i < length ts" "ts ! i = (n, e # rest)"
  shows "mset (in_turn ts) = add_mset (n, e) (mset (in_turn (ts[i := (n, rest)])))"
proof -
  have a: "ts = take i ts @ (n, e # rest) # drop (Suc i) ts"
    using assms by (metis id_take_nth_drop)
  have b: "ts[i := (n, rest)] = take i ts @ (n, rest) # drop (Suc i) ts"
    using assms by (simp add: upd_conv_take_nth_drop)
  have "mset (in_turn (take i ts @ (n, e # rest) # drop (Suc i) ts)) =
        add_mset (n, e) (mset (in_turn (take i ts @ (n, rest) # drop (Suc i) ts)))"
    by (simp add: in_turn_def tagged_def)
  then show ?thesis using a b by simp
qed

lemma sched_mset: "sched ts tr \<Longrightarrow> mset tr = mset (in_turn ts)"
proof (induction rule: sched.induct)
  case (sched_done ts)
  then show ?case by (induction ts) (auto simp: in_turn_def tagged_def)
next
  case (sched_step i ts n e rest tr)
  then show ?case by (simp add: in_turn_update)
qed

lemma sched_project:
  "sched ts tr \<Longrightarrow> distinct (map fst ts) \<Longrightarrow> (k, es) \<in> set ts \<Longrightarrow>
   map snd (filter (\<lambda>ev. fst ev = k) tr) = es"
proof (induction arbitrary: es rule: sched.induct)
  case (sched_done ts)
  then show ?case by auto
next
  case (sched_step i ts n e rest tr)
  have fsts: "map fst (ts[i := (n, rest)]) = map fst ts"
    using sched_step.hyps(1,2) by (simp add: map_update) (metis fst_conv list_update_id map_update)
  then have d: "distinct (map fst (ts[i := (n, rest)]))" using sched_step.prems by simp
  show ?case
  proof (cases "k = n")
    case True
    have "(n, e # rest) \<in> set ts" using sched_step.hyps(1,2) by (metis nth_mem)
    then have es: "es = e # rest"
      using sched_step.prems True by (meson eq_key_imp_eq_value)
    have "(n, rest) \<in> set (ts[i := (n, rest)])"
      using sched_step.hyps(1) by (simp add: set_update_memI)
    then have "map snd (filter (\<lambda>ev. fst ev = k) tr) = rest"
      using sched_step.IH d True by blast
    then show ?thesis using True es by simp
  next
    case False
    obtain j where j: "j < length ts" "ts ! j = (k, es)"
      using sched_step.prems(2) by (metis in_set_conv_nth)
    then have "j \<noteq> i" using sched_step.hyps(2) False by auto
    then have "(ts[i := (n, rest)]) ! j = (k, es)" using j by simp
    then have "(k, es) \<in> set (ts[i := (n, rest)])"
      using j(1) by (metis length_list_update nth_mem)
    then have "map snd (filter (\<lambda>ev. fst ev = k) tr) = es"
      using sched_step.IH d by blast
    then show ?thesis using False by simp
  qed
qed

lemma sched_absent:
  "sched ts tr \<Longrightarrow> k \<notin> fst ` set ts \<Longrightarrow> filter (\<lambda>ev. fst ev = k) tr = []"
proof -
  assume s: "sched ts tr" and k: "k \<notin> fst ` set ts"
  have "set tr = set (in_turn ts)" using sched_mset [OF s] by (metis set_mset_mset)
  then have "fst ` set tr \<subseteq> fst ` set ts" by (force simp: in_turn_def tagged_def)
  then show ?thesis using k by (auto simp: filter_empty_conv)
qed

subsection \<open>The execution wrapper\<close>

lemma execute_valid:
  "ValidString name \<Longrightarrow> execute name c lg =
     (map (Sent InUpdate) (fst (Update c)) @ error_log lg c @ [Sent InExecute (indicator name c)], Return ())"
  by (cases "Update c")
     (auto simp: execute_def error_log_def indicator_def failed_def MustNewConstMetric_up_valid
           split: option.splits)

lemma execute_invalid:
  "\<not> ValidString name \<Longrightarrow> execute name c lg =
     (map (Sent InUpdate) (fst (Update c)) @ error_log lg c, Panic ''label value is not valid UTF-8'')"
  by (cases "Update c")
     (auto simp: execute_def error_log_def MustNewConstMetric_up_invalid split: option.splits)

lemma execute_returns_iff: "snd (execute name c lg) = Return () \<longleftrightarrow> ValidString name"
  by (cases "ValidString name") (simp_all add: execute_valid execute_invalid)

lemma panics_iff: "panics n visit \<longleftrightarrow> \<not> list_all (\<lambda>(name, c). ValidString name) visit"
  by (induction visit) (auto simp: panics_def execute_returns_iff)

lemma Collect_returns:
  "list_all (\<lambda>(name, c). ValidString name) visit \<Longrightarrow> Collect n visit (in_turn (goroutines n visit))"
  by (simp add: Collect_def panics_iff sched_in_turn)

lemma range_of_empty: "range_of Map.empty visit \<longleftrightarrow> visit = []"
  by (cases visit) (auto simp: range_of_def)

lemma sched_Nil: "sched [] tr \<longleftrightarrow> tr = []"
  by (auto elim: sched.cases intro: sched_done)

subsection \<open>Describe\<close>

text \<open>
  C6 (as amended). Every call of \<^verbatim>\<open>Describe\<close> sends exactly one descriptor, the
  same one whatever the orchestrator: fully-qualified name \<open>github_billing_up\<close>
  (namespace \<open>github_billing\<close>, name \<open>up\<close>), the single variable label
  \<open>collector\<close>, no constant labels, and the help text
  \<open>Can be test_server reached\<close>.
\<close>

theorem Describe_up:
  "Describe n = [\<lparr>fqName = ''github_billing_up'', helpText = ''Can be test_server reached'',
                  variableLabels = [''collector''], constLabels = [], err = None\<rparr>]"
  by (simp add: Describe_def up_fields)

text \<open>The help text of the descriptor is not the sentence the specification quotes.\<close>

theorem Describe_help_counterexample:
  "helpText (hd (Describe \<lparr>Collectors = Map.empty, logger = []\<rparr>)) \<noteq>
     ''whether the named collector's last run succeeded''"
  by (simp add: Describe_def up_fields)

subsection \<open>Collect on an empty collector set\<close>

text \<open>
  C9. When the orchestrator holds no collector, the \<^verbatim>\<open>range\<close> loop of
  \<^verbatim>\<open>Collect\<close> visits nothing, the only run of \<^verbatim>\<open>Collect\<close> returns with the empty
  trace (no sample, no success indicator, no log entry), and \<^verbatim>\<open>Describe\<close> still
  sends the one descriptor \<open>up\<close>.
\<close>

theorem Collect_empty:
  assumes "Collectors n = Map.empty" and "range_of (Collectors n) visit"
  shows "visit = [] \<and> (Collect n visit tr \<longleftrightarrow> tr = []) \<and> Describe n = [up]"
  using assms by (simp add: range_of_empty Collect_def panics_def goroutines_def sched_Nil Describe_def)

theorem Collect_empty_witness:
  "Collectors \<lparr>Collectors = Map.empty, logger = [(''ts'', ''now'')]\<rparr> = Map.empty \<and>
   range_of (Collectors \<lparr>Collectors = Map.empty, logger = [(''ts'', ''now'')]\<rparr>) [] \<and>
   (Collect \<lparr>Collectors = Map.empty, logger = [(''ts'', ''now'')]\<rparr> [] [] \<longleftrightarrow> True) \<and>
   Describe \<lparr>Collectors = Map.empty, logger = [(''ts'', ''now'')]\<rparr> = [up]"
  using Collect_empty [of "\<lparr>Collectors = Map.empty, logger = [(''ts'', ''now'')]\<rparr>" "[]" "[]"]
  by (simp add: range_of_def)

subsection \<open>Sample data: basic facts\<close>

lemma two_range: "range_of (Collectors two_collectors) two_visit"
  by (simp add: range_of_def two_collectors_def two_visit_def)

lemma two_valid: "list_all (\<lambda>(name, c). ValidString name) two_visit"
  by (simp add: two_visit_def byte_def)

lemma bad_name_invalid: "\<not> ValidString bad_name"
  by (simp add: bad_name_def byte_def)

subsection \<open>One success indicator per collector\<close>

lemma indicators_append: "indicators (xs @ ys) = indicators xs @ indicators ys"
  by (simp add: indicators_def)

lemma indicators_updates: "indicators (map (Pair g) (map (Sent InUpdate) ws)) = []"
  by (induction ws) (simp_all add: indicators_def)

lemma indicators_error_log: "indicators (map (Pair g) (error_log lg c)) = []"
  by (cases "snd (Update c)") (simp_all add: indicators_def error_log_def)

lemma indicators_execute:
  "ValidString name \<Longrightarrow>
   indicators (map (Pair name) (fst (execute name c lg))) = [(name, indicator name c)]"
  by (simp add: execute_valid indicators_append indicators_updates indicators_error_log)
     (simp add: indicators_def)

lemma indicators_in_turn:
  "list_all (\<lambda>(name, c). ValidString name) visit \<Longrightarrow>
   indicators (in_turn (goroutines n visit)) = owed visit"
proof (induction visit)
  case Nil
  then show ?case by (simp add: in_turn_def goroutines_def indicators_def owed_def)
next
  case (Cons a visit)
  obtain name c where a: "a = (name, c)" by (cases a)
  have v: "ValidString name" using Cons.prems a by simp
  have "indicators (in_turn (goroutines n (a # visit))) =
        indicators (map (Pair name) (fst (execute name c (logger n)))) @
        indicators (in_turn (goroutines n visit))"
    by (simp add: a in_turn_def goroutines_def tagged_def indicators_append)
  then show ?case using Cons v by (simp add: indicators_execute owed_def a)
qed

lemma indicators_mset: "mset tr = mset tr' \<Longrightarrow> mset (indicators tr) = mset (indicators tr')"
proof -
  assume "mset tr = mset tr'"
  then have "image_mset (\<lambda>ev. mset (indicator_of ev)) (mset tr) =
             image_mset (\<lambda>ev. mset (indicator_of ev)) (mset tr')" by simp
  then have "sum_list (map (\<lambda>ev. mset (indicator_of ev)) tr) =
             sum_list (map (\<lambda>ev. mset (indicator_of ev)) tr')"
    by (metis mset_map sum_mset_sum_list)
  then show ?thesis by (simp add: indicators_def mset_concat comp_def)
qed

lemma Collect_owed: "Collect n visit tr \<Longrightarrow> mset (indicators tr) = mset (owed visit)"
proof -
  assume c: "Collect n visit tr"
  then have v: "list_all (\<lambda>(name, c). ValidString name) visit"
    by (simp add: Collect_def panics_iff)
  have "mset tr = mset (in_turn (goroutines n visit))"
    using c by (simp add: Collect_def sched_mset)
  then show ?thesis using indicators_in_turn [OF v] indicators_mset by metis
qed

lemma owed_zero:
  "filter (\<lambda>(g, m). val m = 0) (owed visit) = owed (filter (\<lambda>(name, c). failed c) visit)"
  by (induction visit) (auto simp: owed_def indicator_def)

lemma owed_one:
  "filter (\<lambda>(g, m). val m = 1) (owed visit) = owed (filter (\<lambda>(name, c). \<not> failed c) visit)"
  by (induction visit) (auto simp: owed_def indicator_def)

lemma range_of_card: "range_of m kvs \<Longrightarrow> length kvs = card (dom m)"
  by (metis range_of_def distinct_card dom_map_of_conv_image_fst length_map set_map)

lemma count_filter: "mset xs = mset ys \<Longrightarrow> length (filter P xs) = length (filter P ys)"
  by (metis mset_filter size_mset)

text \<open>
  C1 (as amended). Let the active collector set hold \<open>N\<close> collectors, all with names
  that are valid UTF-8, of which \<open>K\<close> fail in \<^verbatim>\<open>Update\<close>. Then \<^verbatim>\<open>Collect\<close> returns,
  and every run of it that returns has sent exactly \<open>N\<close> success indicators, one for
  each collector of the set: \<open>K\<close>
  with value 0 and \<open>N - K\<close> with value 1, each one the \<open>up\<close> gauge of a collector of
  the set, sent by that collector's goroutine and labelled with its name.
\<close>

theorem Collect_indicators:
  assumes r: "range_of (Collectors n) visit"
    and v: "list_all (\<lambda>(name, c). ValidString name) visit"
  shows "Collect n visit (in_turn (goroutines n visit)) \<and>
    (\<forall>tr. Collect n visit tr \<longrightarrow>
       mset (indicators tr) = mset (owed visit) \<and>
       length (indicators tr) = card (dom (Collectors n)) \<and>
       length (filter (\<lambda>(g, m). val m = 0) (indicators tr)) =
         length (filter (\<lambda>(name, c). failed c) visit) \<and>
       length (filter (\<lambda>(g, m). val m = 1) (indicators tr)) =
         card (dom (Collectors n)) - length (filter (\<lambda>(name, c). failed c) visit) \<and>
       (\<forall>(g, m) \<in> set (indicators tr).
          \<exists>c. Collectors n g = Some c \<and> m = indicator g c \<and> labelValues m = [g] \<and> desc m = up))"
proof (intro conjI allI impI)
  show "Collect n visit (in_turn (goroutines n visit))" using v by (rule Collect_returns)
next
  fix tr assume c: "Collect n visit tr"
  note m = Collect_owed [OF c]
  show "mset (indicators tr) = mset (owed visit)" by (rule m)
  have len: "length visit = card (dom (Collectors n))" using r by (rule range_of_card)
  show "length (indicators tr) = card (dom (Collectors n))"
    using m len by (metis size_mset length_map owed_def)
  show "length (filter (\<lambda>(g, m). val m = 0) (indicators tr)) =
         length (filter (\<lambda>(name, c). failed c) visit)"
    using count_filter [OF m] by (simp add: owed_zero) (simp add: owed_def)
  have "length (filter (\<lambda>(g, m). val m = 1) (indicators tr)) =
        length (filter (\<lambda>(name, c). \<not> failed c) visit)"
    using count_filter [OF m] by (simp add: owed_one) (simp add: owed_def)
  moreover have "length (filter (\<lambda>(name, c). \<not> failed c) visit) =
        length visit - length (filter (\<lambda>(name, c). failed c) visit)"
    using sum_length_filter_compl [of "\<lambda>(name, c). failed c" visit]
    by (simp add: case_prod_unfold)
  ultimately show "length (filter (\<lambda>(g, m). val m = 1) (indicators tr)) =
         card (dom (Collectors n)) - length (filter (\<lambda>(name, c). failed c) visit)"
    using len by simp
  show "\<forall>(g, m) \<in> set (indicators tr).
          \<exists>c. Collectors n g = Some c \<and> m = indicator g c \<and> labelValues m = [g] \<and> desc m = up"
  proof -
    have "set (indicators tr) = set (owed visit)" using m by (metis set_mset_mset)
    moreover have "\<And>g c. (g, c) \<in> set visit \<Longrightarrow> Collectors n g = Some c"
      using r by (metis range_of_def map_of_is_SomeI)
    ultimately show ?thesis by (auto simp: owed_def indicator_def)
  qed
qed

text \<open>The theorem at the two sample collectors: two indicators, one 0 and one 1.\<close>

theorem Collect_indicators_witness:
  "range_of (Collectors two_collectors) two_visit \<and>
   list_all (\<lambda>(name, c). ValidString name) two_visit \<and>
   Collect two_collectors two_visit (in_turn (goroutines two_collectors two_visit)) \<and>
   length (indicators (in_turn (goroutines two_collectors two_visit))) = 2 \<and>
   length (filter (\<lambda>(g, m). val m = 0) (indicators (in_turn (goroutines two_collectors two_visit)))) = 1 \<and>
   length (filter (\<lambda>(g, m). val m = 1) (indicators (in_turn (goroutines two_collectors two_visit)))) = 1"
proof -
  note t = Collect_indicators [OF two_range two_valid]
  have k: "length (filter (\<lambda>(name, c). failed c) two_visit) = 1"
    by (simp add: two_visit_def failed_def actions_collector_def storage_collector_def)
  have n: "card (dom (Collectors two_collectors)) = 2"
    using range_of_card [OF two_range] by (simp add: two_visit_def)
  show ?thesis using t two_range two_valid k n by simp
qed

text \<open>With a collector registered under a name that is not UTF-8 the goroutine panics
  while it builds the indicator: \<^verbatim>\<open>Collect\<close> does not return and no indicator is sent.\<close>

theorem Collect_indicators_counterexample:
  "panics \<lparr>Collectors = [bad_name \<mapsto> actions_collector], logger = []\<rparr> [(bad_name, actions_collector)] \<and>
   indicators (map (Pair bad_name) (fst (execute bad_name actions_collector []))) = []"
  by (simp add: panics_iff bad_name_invalid execute_invalid error_log_def actions_collector_def
      indicators_def)

subsection \<open>Errors of Update stay inside execute\<close>

text \<open>
  C2 (as amended). For a collector whose name is valid UTF-8 and whose \<^verbatim>\<open>Update\<close>
  returns an error, \<^verbatim>\<open>execute\<close> forwards the collector's samples, logs the error at
  level error, sends the indicator with value 0 and returns; nothing of the error
  reaches its caller. When all names of the set are valid UTF-8, \<^verbatim>\<open>Collect\<close> returns
  on every schedule, however many collectors fail.
\<close>

theorem execute_contains_error:
  assumes "list_all (\<lambda>(name, c). ValidString name) visit"
    and "(name, c) \<in> set visit" and "snd (Update c) = Some e"
  shows "execute name c (logger n) =
      (map (Sent InUpdate) (fst (Update c)) @
       [Logged (Log (level_Error (logger n)) [(''msg'', ''Cannot collect metrics''), (''err'', e)]),
        Sent InExecute \<lparr>desc = up, valType = GaugeValue, val = 0, labelValues = [name]\<rparr>],
       Return ()) \<and>
     Collect n visit (in_turn (goroutines n visit)) \<and>
     (\<forall>tr. sched (goroutines n visit) tr \<longrightarrow> Collect n visit tr)"
proof -
  have "ValidString name" using assms(1,2) by (auto simp: list_all_iff)
  then have "execute name c (logger n) =
      (map (Sent InUpdate) (fst (Update c)) @
       [Logged (Log (level_Error (logger n)) [(''msg'', ''Cannot collect metrics''), (''err'', e)]),
        Sent InExecute \<lparr>desc = up, valType = GaugeValue, val = 0, labelValues = [name]\<rparr>],
       Return ())"
    using assms(3) by (simp add: execute_valid error_log_def indicator_def failed_def)
  moreover have "\<forall>tr. sched (goroutines n visit) tr \<longrightarrow> Collect n visit tr"
    using assms(1) by (simp add: Collect_def panics_iff)
  ultimately show ?thesis using Collect_returns [OF assms(1)] by simp
qed

text \<open>The theorem at the failing sample collector.\<close>

theorem execute_contains_error_witness:
  "list_all (\<lambda>(name, c). ValidString name) two_visit \<and>
   (''storage'', storage_collector) \<in> set two_visit \<and>
   snd (Update storage_collector) = Some ''quota exceeded'' \<and>
   execute ''storage'' storage_collector (logger two_collectors) =
     ([Logged [(''level'', ''error''), (''ts'', ''now''), (''msg'', ''Cannot collect metrics''),
               (''err'', ''quota exceeded'')],
       Sent InExecute \<lparr>desc = up, valType = GaugeValue, val = 0, labelValues = [''storage'']\<rparr>],
      Return ()) \<and>
   Collect two_collectors two_visit (in_turn (goroutines two_collectors two_visit))"
proof -
  have a: "(''storage'', storage_collector) \<in> set two_visit" by (simp add: two_visit_def)
  have b: "snd (Update storage_collector) = Some ''quota exceeded''"
    by (simp add: storage_collector_def)
  show ?thesis
    using execute_contains_error [OF two_valid a b, of two_collectors] two_valid a b
    by (simp add: storage_collector_def two_collectors_def Log_def level_Error_def)
qed

text \<open>Under a name that is not UTF-8 the error is logged, but \<^verbatim>\<open>execute\<close> panics before
  it sends the indicator, and \<^verbatim>\<open>Collect\<close> does not return.\<close>

theorem execute_contains_error_counterexample:
  "execute bad_name storage_collector [] =
     ([Logged [(''level'', ''error''), (''msg'', ''Cannot collect metrics''), (''err'', ''quota exceeded'')]],
      Panic ''label value is not valid UTF-8'') \<and>
   panics \<lparr>Collectors = [bad_name \<mapsto> storage_collector], logger = []\<rparr> [(bad_name, storage_collector)]"
  by (simp add: panics_iff bad_name_invalid execute_invalid error_log_def storage_collector_def
      Log_def level_Error_def)

subsection \<open>Building the indicator\<close>

text \<open>
  C10 (as amended). For every collector name that is valid UTF-8 and every outcome of
  \<^verbatim>\<open>Update\<close>, \<^verbatim>\<open>MustNewConstMetric\<close> in \<^verbatim>\<open>execute\<close> does not panic: the descriptor
  \<open>up\<close> carries no error, exactly one label value is given for its one variable label
  \<open>collector\<close>, and the gauge value is 0 or 1.
\<close>

theorem indicator_constructed:
  assumes "ValidString name"
  shows "MustNewConstMetric up GaugeValue (if failed c then 0 else 1) [name] = Return (indicator name c) \<and>
     snd (execute name c lg) = Return () \<and>
     last (fst (execute name c lg)) = Sent InExecute (indicator name c) \<and>
     err up = None \<and> variableLabels up = [''collector''] \<and>
     length (labelValues (indicator name c)) = length (variableLabels up) \<and>
     (val (indicator name c) = 0 \<or> val (indicator name c) = 1)"
  using assms
  by (simp add: MustNewConstMetric_up_valid execute_valid indicator_def) (simp add: up_fields)

text \<open>The theorem at the succeeding sample collector.\<close>

theorem indicator_constructed_witness:
  "ValidString ''actions'' \<and>
   MustNewConstMetric up GaugeValue 1 [''actions''] =
     Return \<lparr>desc = up, valType = GaugeValue, val = 1, labelValues = [''actions'']\<rparr> \<and>
   snd (execute ''actions'' actions_collector []) = Return ()"
proof -
  have v: "ValidString ''actions''" by (simp add: byte_def)
  have f: "\<not> failed actions_collector" by (simp add: failed_def actions_collector_def)
  show ?thesis using indicator_constructed [OF v, of actions_collector "[]"] v f
    by (simp add: indicator_def)
qed

text \<open>A label value that is not UTF-8 makes \<^verbatim>\<open>MustNewConstMetric\<close> panic.\<close>

theorem indicator_constructed_counterexample:
  "MustNewConstMetric up GaugeValue 1 [bad_name] = Panic ''label value is not valid UTF-8'' \<and>
   execute bad_name actions_collector [] =
     ([Sent InUpdate minutes_sample], Panic ''label value is not valid UTF-8'')"
  by (simp add: bad_name_invalid MustNewConstMetric_up_invalid execute_invalid error_log_def
      actions_collector_def)

subsection \<open>The order of one collector's writes\<close>

lemma goroutines_names: "map fst (goroutines n visit) = map fst visit"
  by (induction visit) (auto simp: goroutines_def)

lemma goroutines_member:
  "(name, c) \<in> set visit \<Longrightarrow> (name, fst (execute name c (logger n))) \<in> set (goroutines n visit)"
  by (force simp: goroutines_def)

lemma execute_effects:
  "fst (execute name c lg) =
     map (Sent InUpdate) (fst (Update c)) @ error_log lg c @
     (if ValidString name then [Sent InExecute (indicator name c)] else [])"
  by (simp add: execute_valid execute_invalid)

text \<open>
  C7. In every run of \<^verbatim>\<open>Collect\<close> that returns, whatever the interleaving of the
  goroutines, the events of one collector's goroutine are, in this order: the samples
  its \<^verbatim>\<open>Update\<close> sent, the error entry if \<^verbatim>\<open>Update\<close> failed, and last the success
  indicator. In \<^verbatim>\<open>execute\<close> itself nothing but the error entry and the indicator
  follows the samples of \<^verbatim>\<open>Update\<close>.
\<close>

theorem indicator_after_own_samples:
  assumes "range_of (Collectors n) visit" and "Collect n visit tr" and "(name, c) \<in> set visit"
  shows "events_of name tr =
           map (Sent InUpdate) (fst (Update c)) @ error_log (logger n) c @
           [Sent InExecute (indicator name c)] \<and>
         (\<forall>name' lg. \<exists>rest. fst (execute name' c lg) =
            map (Sent InUpdate) (fst (Update c)) @ error_log lg c @ rest \<and>
            (rest = [] \<or> rest = [Sent InExecute (indicator name' c)]))"
proof
  have v: "ValidString name"
    using assms(2,3) by (auto simp: Collect_def panics_iff list_all_iff)
  have d: "distinct (map fst (goroutines n visit))"
    using assms(1) by (simp add: goroutines_names range_of_def)
  have "events_of name tr = fst (execute name c (logger n))"
    unfolding events_of_def
    using assms(2) d goroutines_member [OF assms(3)]
    by (intro sched_project [where ts = "goroutines n visit"]) (simp_all add: Collect_def)
  then show "events_of name tr =
           map (Sent InUpdate) (fst (Update c)) @ error_log (logger n) c @
           [Sent InExecute (indicator name c)]"
    using v by (simp add: execute_effects)
  show "\<forall>name' lg. \<exists>rest. fst (execute name' c lg) =
            map (Sent InUpdate) (fst (Update c)) @ error_log lg c @ rest \<and>
            (rest = [] \<or> rest = [Sent InExecute (indicator name' c)])"
    by (simp add: execute_effects)
qed

lemma two_goroutines:
  "goroutines two_collectors two_visit =
     [(''actions'', [Sent InUpdate minutes_sample, Sent InExecute (indicator ''actions'' actions_collector)]),
      (''storage'', [Logged [(''level'', ''error''), (''ts'', ''now''),
                            (''msg'', ''Cannot collect metrics''), (''err'', ''quota exceeded'')],
                     Sent InExecute (indicator ''storage'' storage_collector)])]"
  by (simp add: goroutines_def two_visit_def execute_valid byte_def error_log_def
      two_collectors_def actions_collector_def storage_collector_def Log_def level_Error_def)

lemma two_interleaved: "Collect two_collectors two_visit interleaved"
  unfolding Collect_def
proof
  show "\<not> panics two_collectors two_visit" using two_valid by (simp add: panics_iff)
  show "sched (goroutines two_collectors two_visit) interleaved"
    unfolding two_goroutines interleaved_def
    apply (rule sched_step [where i = 1], simp, simp, simp)
    apply (rule sched_step [where i = 0], simp, simp, simp)
    apply (rule sched_step [where i = 1], simp, simp, simp)
    apply (rule sched_step [where i = 0], simp, simp, simp)
    apply (rule sched_done, simp)
    done
qed

text \<open>The theorem at a run of the two sample collectors whose steps alternate.\<close>

theorem indicator_after_own_samples_witness:
  "range_of (Collectors two_collectors) two_visit \<and>
   Collect two_collectors two_visit interleaved \<and>
   (''actions'', actions_collector) \<in> set two_visit \<and>
   events_of ''actions'' interleaved =
     [Sent InUpdate minutes_sample, Sent InExecute (indicator ''actions'' actions_collector)]"
proof -
  have a: "(''actions'', actions_collector) \<in> set two_visit" by (simp add: two_visit_def)
  show ?thesis
    using indicator_after_own_samples [OF two_range two_interleaved a] two_range two_interleaved a
    by (simp add: error_log_def actions_collector_def)
qed

subsection \<open>The loop of NewBillingCollector\<close>

lemma build_loop_snd_Cons:
  "snd (build_loop g lg ((key, p) # rest) acc) =
     (case deref g p of
        None \<Rightarrow> Panic ''nil pointer dereference''
      | Some en \<Rightarrow>
        if en then
          (case construct g lg key of
             None \<Rightarrow> Panic ''nil pointer dereference''
           | Some (Inl e) \<Rightarrow> Return (None, Some e)
           | Some (Inr collector) \<Rightarrow> snd (build_loop g lg rest (acc(key \<mapsto> collector))))
        else snd (build_loop g lg rest acc))"
  by (simp add: construct_def case_prod_unfold Let_def split: option.splits sum.splits)

lemma build_loop_fst_Cons:
  "fst (build_loop g lg ((key, p) # rest) acc) =
     (case deref g p of
        None \<Rightarrow> []
      | Some en \<Rightarrow>
        if en then
          (case construct g lg key of
             None \<Rightarrow> []
           | Some (Inl e) \<Rightarrow> [Constructed key (log_With lg [(''collector'', key)])]
           | Some (Inr collector) \<Rightarrow>
               Constructed key (log_With lg [(''collector'', key)]) #
               fst (build_loop g lg rest (acc(key \<mapsto> collector))))
        else Logged (Log (level_Info lg) [(''msg'', ''Collector disabled''), (''name'', key)]) #
             fst (build_loop g lg rest acc))"
  by (simp add: construct_def case_prod_unfold Let_def split: option.splits sum.splits)

lemma build_loop_no_panic:
  "registered g visit \<Longrightarrow> snd (build_loop g lg visit acc) \<noteq> Panic msg"
proof (induction visit arbitrary: acc)
  case Nil
  then show ?case by simp
next
  case (Cons a visit)
  obtain key p where a: "a = (key, p)" by (cases a)
  have r: "registered g visit" and p: "p < length (flagOrder g)" and f: "factories g key \<noteq> None"
    using Cons.prems by (simp_all add: registered_def a)
  show ?case
    using Cons.IH [OF r] p f unfolding a build_loop_snd_Cons
    by (auto simp: deref_def construct_def split: sum.splits)
qed

lemma build_loop_error:
  "snd (build_loop g lg visit acc) = Return (None, r) \<Longrightarrow>
   \<exists>key p e. (key, p) \<in> set visit \<and> enabled g p \<and> construct g lg key = Some (Inl e) \<and> r = Some e"
proof (induction visit arbitrary: acc)
  case Nil
  then show ?case by simp
next
  case (Cons a visit)
  obtain key p where a: "a = (key, p)" by (cases a)
  show ?case
    using Cons.prems Cons.IH unfolding a build_loop_snd_Cons
    by (fastforce simp: enabled_def split: option.splits if_splits sum.splits)
qed

lemma build_loop_success:
  "snd (build_loop g lg visit acc) = Return (Some n, r) \<Longrightarrow>
   r = None \<and> logger n = lg \<and>
   dom (Collectors n) = dom acc \<union> {key. \<exists>p. (key, p) \<in> set visit \<and> enabled g p} \<and>
   (\<forall>(key, p) \<in> set visit. enabled g p \<longrightarrow> (\<exists>c. construct g lg key = Some (Inr c))) \<and>
   (\<forall>key. key \<notin> fst ` set visit \<longrightarrow> Collectors n key = acc key)"
proof (induction visit arbitrary: acc)
  case Nil
  then show ?case by auto
next
  case (Cons a visit)
  obtain key p where a: "a = (key, p)" by (cases a)
  show ?case
  proof (cases "enabled g p")
    case True
    then obtain c where c: "construct g lg key = Some (Inr c)"
      and s: "snd (build_loop g lg visit (acc(key \<mapsto> c))) = Return (Some n, r)"
      using Cons.prems unfolding a build_loop_snd_Cons
      by (auto simp: enabled_def split: option.splits sum.splits)
    note ih = Cons.IH [OF s]
    have e: "{k. \<exists>q. (k, q) \<in> set (a # visit) \<and> enabled g q} =
             insert key {k. \<exists>q. (k, q) \<in> set visit \<and> enabled g q}"
      using True by (auto simp: a)
    have d1: "dom (Collectors n) = dom (acc(key \<mapsto> c)) \<union> {k. \<exists>q. (k, q) \<in> set visit \<and> enabled g q}"
      using ih by blast
    have d2: "dom (acc(key \<mapsto> c)) \<union> {k. \<exists>q. (k, q) \<in> set visit \<and> enabled g q} =
              dom acc \<union> insert key {k. \<exists>q. (k, q) \<in> set visit \<and> enabled g q}"
      by auto
    have "dom (Collectors n) = dom acc \<union> {k. \<exists>q. (k, q) \<in> set (a # visit) \<and> enabled g q}"
      unfolding e d1 d2 ..
    moreover have "\<forall>(k, q) \<in> set (a # visit). enabled g q \<longrightarrow> (\<exists>c. construct g lg k = Some (Inr c))"
      using ih c by (simp add: a)
    moreover have "\<forall>k. k \<notin> fst ` set (a # visit) \<longrightarrow> Collectors n k = acc k"
      using ih by (simp add: a)
    ultimately show ?thesis using ih by blast
  next
    case False
    then have s: "snd (build_loop g lg visit acc) = Return (Some n, r)"
      using Cons.prems unfolding a build_loop_snd_Cons
      by (auto simp: enabled_def split: option.splits if_splits)
    note ih = Cons.IH [OF s]
    have e: "{k. \<exists>q. (k, q) \<in> set (a # visit) \<and> enabled g q} =
             {k. \<exists>q. (k, q) \<in> set visit \<and> enabled g q}"
      using False by (auto simp: a)
    have "dom (Collectors n) = dom acc \<union> {k. \<exists>q. (k, q) \<in> set (a # visit) \<and> enabled g q}"
      using ih unfolding e by simp
    moreover have "\<forall>(k, q) \<in> set (a # visit). enabled g q \<longrightarrow> (\<exists>c. construct g lg k = Some (Inr c))"
      using ih False by (simp add: a)
    moreover have "\<forall>k. k \<notin> fst ` set (a # visit) \<longrightarrow> Collectors n k = acc k"
      using ih by (simp add: a)
    ultimately show ?thesis using ih by blast
  qed
qed

lemma build_loop_value:
  "snd (build_loop g lg visit acc) = Return (Some n, r) \<Longrightarrow> distinct (map fst visit) \<Longrightarrow>
   (key, p) \<in> set visit \<Longrightarrow> enabled g p \<Longrightarrow> construct g lg key = Some (Inr c) \<Longrightarrow>
   Collectors n key = Some c"
proof (induction visit arbitrary: acc)
  case Nil
  then show ?case by simp
next
  case (Cons a visit)
  obtain k q where a: "a = (k, q)" by (cases a)
  show ?case
  proof (cases "(key, p) = (k, q)")
    case True
    then have s: "snd (build_loop g lg visit (acc(key \<mapsto> c))) = Return (Some n, r)"
      using Cons.prems unfolding a build_loop_snd_Cons by (auto simp: enabled_def)
    have "key \<notin> fst ` set visit" using Cons.prems(2) True a by auto
    then show ?thesis using build_loop_success [OF s] by simp
  next
    case False
    then have m: "(key, p) \<in> set visit" using Cons.prems(3) a by auto
    have d: "distinct (map fst visit)" using Cons.prems(2) by simp
    have "\<exists>acc'. snd (build_loop g lg visit acc') = Return (Some n, r)"
      using Cons.prems(1) unfolding a build_loop_snd_Cons
      by (auto split: option.splits if_splits sum.splits)
    then show ?thesis using Cons.IH m d Cons.prems(4,5) by blast
  qed
qed

lemma build_loop_constructed:
  "Constructed key l \<in> set (fst (build_loop g lg visit acc)) \<Longrightarrow>
   \<exists>p. (key, p) \<in> set visit \<and> enabled g p"
proof (induction visit arbitrary: acc)
  case Nil
  then show ?case by simp
next
  case (Cons a visit)
  obtain k q where a: "a = (k, q)" by (cases a)
  show ?case
    using Cons.prems Cons.IH unfolding a build_loop_fst_Cons
    by (fastforce simp: enabled_def split: option.splits if_splits sum.splits)
qed

lemma range_of_member: "range_of m kvs \<Longrightarrow> (k, v) \<in> set kvs \<longleftrightarrow> m k = Some v"
  by (auto simp: range_of_def)

lemma registerCollector_fields:
  "factories (registerCollector c d f g) = (factories g)(c \<mapsto> f)"
  "collectorState (registerCollector c d f g) = (collectorState g)(c \<mapsto> length (flagOrder g))"
  "forcedCollectors (registerCollector c d f g) = forcedCollectors g"
  "flagOrder (registerCollector c d f g) = flagOrder g @
     [\<lparr>flagName = ''collector.'' @ c,
       flagHelp = ''Enable the '' @ c @ '' collector (default: '' @ (if d then ''enabled'' else ''disabled'') @ '').'',
       defaultValues = [if d then ''true'' else ''false''], actionFor = c, target = False\<rparr>]"
  by (simp_all add: registerCollector_def Let_def)

lemma well_registered_init: "well_registered init_globals"
  by (simp add: well_registered_def init_globals_def)

lemma well_registered_registerCollector:
  "well_registered g \<Longrightarrow> well_registered (registerCollector c d f g)"
  by (auto simp: well_registered_def registerCollector_fields less_SucI)

lemma well_registered_collectorFlagAction:
  "well_registered g \<Longrightarrow> well_registered (collectorFlagAction c g)"
  by (simp add: well_registered_def collectorFlagAction_def)

lemma well_registered_parse_defaults:
  "well_registered g \<Longrightarrow> well_registered (parse_defaults g)"
  by (simp add: well_registered_def parse_defaults_def)

lemma well_registered_visit:
  "well_registered g \<Longrightarrow> range_of (collectorState g) visit \<Longrightarrow> registered g visit"
  using range_of_member [of "collectorState g" visit]
  by (auto simp: well_registered_def registered_def list_all_iff)

text \<open>
  C3. For a registry as \<^verbatim>\<open>registerCollector\<close> builds it, visited in any order: if the
  factory of some enabled collector returns an error, \<^verbatim>\<open>NewBillingCollector\<close> returns
  \<^verbatim>\<open>nil\<close> for the orchestrator together with the error of an enabled collector's
  factory; otherwise, and only then, it returns an orchestrator and no error.
\<close>

theorem NewBillingCollector_all_or_nothing:
  assumes "range_of (collectorState g) visit" and "registered g visit"
  shows "(list_ex (fails g lg) visit \<longrightarrow>
            (\<exists>key p e. collectorState g key = Some p \<and> enabled g p \<and>
               construct g lg key = Some (Inl e) \<and>
               snd (NewBillingCollector g visit lg) = Return (None, Some e))) \<and>
         (\<not> list_ex (fails g lg) visit \<longrightarrow>
            (\<exists>n. snd (NewBillingCollector g visit lg) = Return (Some n, None)))"
proof -
  let ?r = "snd (NewBillingCollector g visit lg)"
  have np: "\<And>msg. ?r \<noteq> Panic msg"
    using assms(2) by (simp add: NewBillingCollector_def build_loop_no_panic)
  have err: "\<And>r. ?r = Return (None, r) \<Longrightarrow>
      \<exists>key p e. collectorState g key = Some p \<and> enabled g p \<and>
        construct g lg key = Some (Inl e) \<and> r = Some e"
    using build_loop_error [of g lg visit Map.empty] range_of_member [OF assms(1)]
    unfolding NewBillingCollector_def by blast
  have ok: "\<And>n r. ?r = Return (Some n, r) \<Longrightarrow> r = None \<and> \<not> list_ex (fails g lg) visit"
  proof -
    fix n r assume "?r = Return (Some n, r)"
    then have s: "snd (build_loop g lg visit Map.empty) = Return (Some n, r)"
      by (simp add: NewBillingCollector_def)
    have "\<forall>(key, p) \<in> set visit. enabled g p \<longrightarrow> (\<exists>c. construct g lg key = Some (Inr c))"
      using build_loop_success [OF s] by blast
    then have "\<not> list_ex (fails g lg) visit"
      by (fastforce simp: list_ex_iff fails_def)
    then show "r = None \<and> \<not> list_ex (fails g lg) visit"
      using build_loop_success [OF s] by blast
  qed
  obtain a b where ab: "?r = Return (a, b)"
    using np by (cases ?r) auto
  show ?thesis
  proof (cases a)
    case None
    obtain key p e where k: "collectorState g key = Some p" "enabled g p"
        "construct g lg key = Some (Inl e)" "b = Some e"
      using err ab None by blast
    then have "(key, p) \<in> set visit" using range_of_member [OF assms(1)] by simp
    then have "list_ex (fails g lg) visit"
      using k by (force simp: list_ex_iff fails_def)
    then show ?thesis using k ab None by auto
  next
    case (Some n)
    then show ?thesis using ok ab by auto
  qed
qed

lemma broken_range: "range_of (collectorState broken_registered) broken_visit"
  by (auto simp: range_of_def broken_registered_def broken_visit_def parse_defaults_def
      registerCollector_fields init_globals_def)

lemma broken_deref: "deref broken_registered 0 = Some True" "deref broken_registered (Suc 0) = Some True"
  by (simp_all add: deref_def broken_registered_def parse_defaults_def registerCollector_fields
      init_globals_def)

lemma broken_length: "length (flagOrder broken_registered) = 2"
  by (simp add: broken_registered_def parse_defaults_def registerCollector_fields init_globals_def)

lemma broken_factories:
  "factories broken_registered = [''actions'' \<mapsto> (\<lambda>lg. Inr actions_collector), ''storage'' \<mapsto> (\<lambda>lg. Inl ''no token'')]"
  by (simp add: broken_registered_def parse_defaults_def registerCollector_fields init_globals_def)

text \<open>The theorem at a registry of two enabled collectors, the second with a failing factory.\<close>

theorem NewBillingCollector_all_or_nothing_witness:
  "range_of (collectorState broken_registered) broken_visit \<and>
   registered broken_registered broken_visit \<and>
   list_ex (fails broken_registered []) broken_visit \<and>
   (\<exists>key p e. collectorState broken_registered key = Some p \<and> enabled broken_registered p \<and>
      construct broken_registered [] key = Some (Inl e) \<and>
      snd (NewBillingCollector broken_registered broken_visit []) = Return (None, Some e))"
proof -
  have r: "registered broken_registered broken_visit"
    by (simp add: registered_def broken_visit_def broken_length broken_factories)
  have f: "list_ex (fails broken_registered []) broken_visit"
    by (simp add: broken_visit_def fails_def enabled_def broken_deref construct_def broken_factories)
  show ?thesis
    using NewBillingCollector_all_or_nothing [OF broken_range r, of "[]"] broken_range r f by simp
qed

subsection \<open>Disabled collectors\<close>

text \<open>
  C5. \<^verbatim>\<open>NewBillingCollector\<close> never calls the factory of a registered collector whose
  flag is not set. When it returns an orchestrator, the keys of \<open>Collectors\<close> are
  exactly the registered names whose flag is set, each with the collector its factory
  returned; and in a run of \<^verbatim>\<open>Collect\<close> on that
  orchestrator a name outside the set has no event at all, and no success indicator
  carries it as goroutine or as label.
\<close>

theorem disabled_collectors_absent:
  assumes "range_of (collectorState g) visit"
  shows "(\<forall>key p l. collectorState g key = Some p \<and> \<not> enabled g p \<longrightarrow>
            Constructed key l \<notin> set (fst (NewBillingCollector g visit lg))) \<and>
         (\<forall>n r. snd (NewBillingCollector g visit lg) = Return (Some n, r) \<longrightarrow>
            dom (Collectors n) = {key. \<exists>p. collectorState g key = Some p \<and> enabled g p} \<and>
            (\<forall>key p c. collectorState g key = Some p \<and> enabled g p \<and>
                 construct g lg key = Some (Inr c) \<longrightarrow> Collectors n key = Some c) \<and>
            (\<forall>key cvisit tr. key \<notin> dom (Collectors n) \<and> range_of (Collectors n) cvisit \<and>
                 Collect n cvisit tr \<longrightarrow>
               events_of key tr = [] \<and>
               (\<forall>(g', m) \<in> set (indicators tr). g' \<noteq> key \<and> labelValues m \<noteq> [key])))"
proof (intro conjI allI impI)
  fix key p l
  assume a: "collectorState g key = Some p \<and> \<not> enabled g p"
  show "Constructed key l \<notin> set (fst (NewBillingCollector g visit lg))"
  proof
    assume "Constructed key l \<in> set (fst (NewBillingCollector g visit lg))"
    then have "Constructed key l \<in> set (fst (build_loop g lg visit Map.empty))"
      by (simp add: NewBillingCollector_def)
    from build_loop_constructed [OF this]
    obtain q where q: "(key, q) \<in> set visit" "enabled g q" by blast
    have "collectorState g key = Some q" using q(1) range_of_member [OF assms] by simp
    then show False using a q(2) by simp
  qed
next
  fix n r
  assume "snd (NewBillingCollector g visit lg) = Return (Some n, r)"
  then have s: "snd (build_loop g lg visit Map.empty) = Return (Some n, r)"
    by (simp add: NewBillingCollector_def)
  have "dom (Collectors n) = dom (Map.empty :: string \<rightharpoonup> Collector) \<union>
          {key. \<exists>p. (key, p) \<in> set visit \<and> enabled g p}"
    using build_loop_success [OF s] by (rule conjunct1 [OF conjunct2 [OF conjunct2]])
  then show "dom (Collectors n) = {key. \<exists>p. collectorState g key = Some p \<and> enabled g p}"
    by (simp add: range_of_member [OF assms])
  fix key p c
  assume a: "collectorState g key = Some p \<and> enabled g p \<and> construct g lg key = Some (Inr c)"
  have d: "distinct (map fst visit)" using assms by (simp add: range_of_def)
  have m: "(key, p) \<in> set visit" using a range_of_member [OF assms] by simp
  show "Collectors n key = Some c"
    using build_loop_value [OF s d m] a by simp
next
  fix n r key cvisit tr
  assume k: "key \<notin> dom (Collectors n) \<and> range_of (Collectors n) cvisit \<and> Collect n cvisit tr"
  have "map_of cvisit = Collectors n" using k by (simp add: range_of_def)
  then have names: "fst ` set cvisit = dom (Collectors n)"
    using dom_map_of_conv_image_fst [of cvisit] by simp
  have "map fst (goroutines n cvisit) = map fst cvisit" by (rule goroutines_names)
  then have "fst ` set (goroutines n cvisit) = fst ` set cvisit" by (metis set_map)
  then have "key \<notin> fst ` set (goroutines n cvisit)" using k names by simp
  moreover have "sched (goroutines n cvisit) tr" using k by (simp add: Collect_def)
  ultimately have "filter (\<lambda>ev. fst ev = key) tr = []" by (rule sched_absent [rotated])
  then show "events_of key tr = []" by (simp add: events_of_def)
  have c: "Collect n cvisit tr" using k by simp
  have o: "set (indicators tr) = set (owed cvisit)"
    using Collect_owed [OF c] by (metis set_mset_mset)
  show "\<forall>(g', m) \<in> set (indicators tr). g' \<noteq> key \<and> labelValues m \<noteq> [key]"
  proof (clarify, intro conjI)
    fix g' m assume "(g', m) \<in> set (indicators tr)"
    then have "(g', m) \<in> set (owed cvisit)" using o by simp
    then obtain c' where c': "(g', c') \<in> set cvisit" "m = indicator g' c'"
      by (auto simp: owed_def)
    have "g' \<in> fst ` set cvisit" using c'(1) by force
    then have ne: "g' \<noteq> key" using k names by auto
    then show "g' \<noteq> key" .
    show "labelValues m \<noteq> [key]" using ne c'(2) by (simp add: indicator_def)
  qed
qed

lemma three_range: "range_of (collectorState three_registered) three_visit"
  by (auto simp: range_of_def three_registered_def three_visit_def parse_defaults_def
      registerCollector_fields init_globals_def)

lemma three_deref:
  "deref three_registered 0 = Some True" "deref three_registered (Suc 0) = Some False"
  "deref three_registered 2 = Some True"
  by (simp_all add: deref_def three_registered_def parse_defaults_def registerCollector_fields
      init_globals_def nth_append)

lemma three_factories:
  "factories three_registered = [''actions'' \<mapsto> (\<lambda>lg. Inr actions_collector),
     ''storage'' \<mapsto> (\<lambda>lg. Inr storage_collector), ''packages'' \<mapsto> (\<lambda>lg. Inr storage_collector)]"
  by (simp add: three_registered_def parse_defaults_def registerCollector_fields init_globals_def)

lemma three_build:
  "NewBillingCollector three_registered three_visit [] =
     ([Logged [(''level'', ''info''), (''msg'', ''Collector disabled''), (''name'', ''storage'')],
       Constructed ''packages'' [(''collector'', ''packages'')],
       Constructed ''actions'' [(''collector'', ''actions'')]],
      Return (Some three_built, None))"
  by (simp add: NewBillingCollector_def three_visit_def three_deref three_factories
      Log_def level_Info_def log_With_def three_built_def)

lemma three_built_range: "range_of (Collectors three_built) three_built_visit"
  by (auto simp: range_of_def three_built_def three_built_visit_def)

text \<open>The theorem at three registered collectors of which \<open>storage\<close> is disabled.\<close>

theorem disabled_collectors_absent_witness:
  "range_of (collectorState three_registered) three_visit \<and>
   collectorState three_registered ''storage'' = Some 1 \<and> \<not> enabled three_registered 1 \<and>
   Constructed ''storage'' [(''collector'', ''storage'')] \<notin>
     set (fst (NewBillingCollector three_registered three_visit [])) \<and>
   snd (NewBillingCollector three_registered three_visit []) = Return (Some three_built, None) \<and>
   dom (Collectors three_built) =
     {key. \<exists>p. collectorState three_registered key = Some p \<and> enabled three_registered p} \<and>
   ''storage'' \<notin> dom (Collectors three_built) \<and>
   range_of (Collectors three_built) three_built_visit \<and>
   Collect three_built three_built_visit (in_turn (goroutines three_built three_built_visit)) \<and>
   events_of ''storage'' (in_turn (goroutines three_built three_built_visit)) = []"
proof -
  note t = disabled_collectors_absent [OF three_range, of "[]"]
  have s: "collectorState three_registered ''storage'' = Some 1"
    by (simp add: three_registered_def parse_defaults_def registerCollector_fields init_globals_def)
  have e: "\<not> enabled three_registered 1" by (simp add: enabled_def three_deref)
  have b: "snd (NewBillingCollector three_registered three_visit []) = Return (Some three_built, None)"
    by (simp add: three_build)
  have d: "''storage'' \<notin> dom (Collectors three_built)" by (simp add: three_built_def)
  have c: "Collect three_built three_built_visit (in_turn (goroutines three_built three_built_visit))"
    by (rule Collect_returns) (simp add: three_built_visit_def byte_def)
  have 1: "Constructed ''storage'' [(''collector'', ''storage'')] \<notin>
     set (fst (NewBillingCollector three_registered three_visit []))"
    using t s e by blast
  have 2: "dom (Collectors three_built) =
     {key. \<exists>p. collectorState three_registered key = Some p \<and> enabled three_registered p}"
    using t b by blast
  have 3: "events_of ''storage'' (in_turn (goroutines three_built three_built_visit)) = []"
    using t b d three_built_range c by blast
  show ?thesis using three_range s e 1 b 2 d three_built_range c 3 by blast
qed

subsection \<open>Registering a name twice\<close>

lemma checkDuplicates_None:
  "checkDuplicates seen flags = None \<longleftrightarrow>
     distinct (map flagName flags) \<and> set (map flagName flags) \<inter> set seen = {}"
  by (induction flags arbitrary: seen) auto

text \<open>
  C4 (as amended). \<^verbatim>\<open>registerCollector\<close> does not reject a name that is already
  registered: the second call returns like the first, and afterwards the registry
  holds the second registration's entry, its factory and a pointer to its flag with the
  second default, not the first's. The command line then carries two flags of the same
  name, which kingpin's duplicate check reports when the command line is parsed.
\<close>

theorem registerCollector_twice:
  "factories (registerCollector c d2 f2 (registerCollector c d1 f1 g)) c = Some f2 \<and>
   collectorState (registerCollector c d2 f2 (registerCollector c d1 f1 g)) c =
     Some (Suc (length (flagOrder g))) \<and>
   defaultValues (flagOrder (registerCollector c d2 f2 (registerCollector c d1 f1 g)) !
       Suc (length (flagOrder g))) = [if d2 then ''true'' else ''false''] \<and>
   checkDuplicates [] (flagOrder (registerCollector c d2 f2 (registerCollector c d1 f1 g))) \<noteq> None"
proof -
  have "\<not> distinct (map flagName (flagOrder (registerCollector c d2 f2 (registerCollector c d1 f1 g))))"
    by (simp add: registerCollector_fields)
  then have "checkDuplicates [] (flagOrder (registerCollector c d2 f2 (registerCollector c d1 f1 g))) \<noteq> None"
    by (simp add: checkDuplicates_None)
  then show ?thesis by (simp add: registerCollector_fields nth_append)
qed

text \<open>After registering \<open>actions\<close> twice, the registry's factory and flag are the second's.\<close>

theorem registerCollector_twice_counterexample:
  "map_option (\<lambda>factory. factory []) (factories twice_registered ''actions'') = Some (Inl ''second'') \<and>
   collectorState twice_registered ''actions'' = Some 1 \<and>
   map defaultValues (flagOrder twice_registered) = [[''true''], [''false'']]"
  by (simp add: twice_registered_def registerCollector_fields init_globals_def)

subsection \<open>The record of explicit overrides\<close>

lemma deref_forcedCollectors: "deref (g\<lparr>forcedCollectors := fc\<rparr>) p = deref g p"
  by (simp add: deref_def)

lemma build_loop_forcedCollectors:
  "build_loop (g\<lparr>forcedCollectors := fc\<rparr>) lg visit acc = build_loop g lg visit acc"
  by (induction visit arbitrary: acc) (auto simp: deref_forcedCollectors split: option.splits sum.splits)

text \<open>
  C8. Two registries that differ only in \<open>forcedCollectors\<close>, the record of which
  collectors were set explicitly, give the same result of \<^verbatim>\<open>NewBillingCollector\<close>, and
  so the same descriptors of \<^verbatim>\<open>Describe\<close> and the same runs of \<^verbatim>\<open>Collect\<close>. The flag
  action changes nothing else, and \<^verbatim>\<open>registerCollector\<close> carries the record along
  untouched.
\<close>

theorem forcedCollectors_unobserved:
  "NewBillingCollector (g\<lparr>forcedCollectors := fc\<rparr>) = NewBillingCollector g \<and>
   NewBillingCollector (collectorFlagAction c g) = NewBillingCollector g \<and>
   observed (g\<lparr>forcedCollectors := fc\<rparr>) = observed g \<and>
   observed (collectorFlagAction c g) = observed g \<and>
   registerCollector c' d f (g\<lparr>forcedCollectors := fc\<rparr>) = (registerCollector c' d f g)\<lparr>forcedCollectors := fc\<rparr>"
proof -
  have a: "\<And>fc. NewBillingCollector (g\<lparr>forcedCollectors := fc\<rparr>) = NewBillingCollector g"
    by (intro ext) (simp add: NewBillingCollector_def build_loop_forcedCollectors)
  then have b: "\<And>fc. observed (g\<lparr>forcedCollectors := fc\<rparr>) = observed g"
    by (intro ext) (simp add: observed_def)
  show ?thesis using a b by (simp add: collectorFlagAction_def registerCollector_def Let_def)
qed

end
